theory Spec2Isabelle
  imports Main
begin

section \<open>Canonical messages\<close>

text \<open>
  The message classes (\<^verbatim>\<open>langchain_core.messages.ai\<close>, \<^verbatim>\<open>.human\<close>, ...) are imported by
  \<^verbatim>\<open>messages/utils.py\<close> but are not part of the sources at hand. What \<^verbatim>\<open>utils.py\<close>
  itself fixes about them is used here: the six plain classes and their six chunk classes
  (\<^verbatim>\<open>_MSG_CHUNK_MAP\<close>), the twelve type labels (\<^verbatim>\<open>_message_from_dict\<close>), and that a chunk
  class has the plain class of the same variant as its parent (the comment in
  \<^verbatim>\<open>message_chunk_to_message\<close>).
\<close>

datatype variant = Human | AI | System | Chat | Function | Tool

datatype msg_class = Plain variant | Chunk variant

fun variant_of :: "msg_class \<Rightarrow> variant" where
  "variant_of (Plain v) = v"
| "variant_of (Chunk v) = v"

text \<open>
  A content block is a plain string or a dictionary with string keys; the content of a
  message is a string or a list of blocks.
\<close>

datatype block = StrBlock string | DictBlock "(string \<times> string) list"

datatype msg_content = Str string | Blocks "block list"

record message =
  cls :: msg_class
  content :: msg_content
  name :: "string option"
  msg_id :: "string option"
  role :: string
  additional_kwargs :: "(string \<times> string) list"

text \<open>
  Modelled from the spec: the \<^verbatim>\<open>type\<close> field of a message, which the absent message
  classes fix per class. The labels are the twelve that \<^verbatim>\<open>_message_from_dict\<close> dispatches on.
\<close>

fun type_label :: "msg_class \<Rightarrow> string" where
  "type_label (Plain Human) = ''human''"
| "type_label (Plain AI) = ''ai''"
| "type_label (Plain System) = ''system''"
| "type_label (Plain Chat) = ''chat''"
| "type_label (Plain Function) = ''function''"
| "type_label (Plain Tool) = ''tool''"
| "type_label (Chunk Human) = ''HumanMessageChunk''"
| "type_label (Chunk AI) = ''AIMessageChunk''"
| "type_label (Chunk System) = ''SystemMessageChunk''"
| "type_label (Chunk Chat) = ''ChatMessageChunk''"
| "type_label (Chunk Function) = ''FunctionMessageChunk''"
| "type_label (Chunk Tool) = ''ToolMessageChunk''"

definition msg_type :: "message \<Rightarrow> string" where
  "msg_type m = type_label (cls m)"

text \<open>
  Modelled from the spec: \<^verbatim>\<open>issubclass\<close> among the twelve message classes. A class is a
  subclass of itself, and a chunk class of the plain class of its variant.
\<close>

fun issubclass :: "msg_class \<Rightarrow> msg_class \<Rightarrow> bool" where
  "issubclass (Plain v) d = (d = Plain v)"
| "issubclass (Chunk v) d = (d = Chunk v \<or> d = Plain v)"

definition isinstance :: "message \<Rightarrow> msg_class \<Rightarrow> bool" where
  "isinstance m c = issubclass (cls m) c"

text \<open>\<^verbatim>\<open>isinstance(obj, classes)\<close> with a tuple of classes.\<close>

definition isinstance_any :: "message \<Rightarrow> msg_class list \<Rightarrow> bool" where
  "isinstance_any m cs = list_ex (isinstance m) cs"

text \<open>
  \<^verbatim>\<open>isinstance(msg.type, classes)\<close>: the object tested is the \<^verbatim>\<open>str\<close> held in the
  \<^verbatim>\<open>type\<close> field, and a \<^verbatim>\<open>str\<close> is an instance of no message class.
\<close>

definition str_isinstance_any :: "string \<Rightarrow> msg_class list \<Rightarrow> bool" where
  "str_isinstance_any s cs = False"

datatype error = IndexError | KeyError | ValueError

section \<open>filter_messages\<close>

text \<open>
  The inputs are sequences of message objects, on which \<^verbatim>\<open>convert_to_messages\<close> is the
  identity (first branch of \<^verbatim>\<open>_convert_to_message\<close>). An optional sequence argument is an
  \<open>option\<close> of a list; a type is given as a string (\<open>Inl\<close>) or as a class (\<open>Inr\<close>).
\<close>

type_synonym type_spec = "string + msg_class"

text \<open>\<^verbatim>\<open>[t for t in (types or ()) if isinstance(t, str)]\<close> and the same for classes.\<close>

fun types_str :: "type_spec list option \<Rightarrow> string list" where
  "types_str None = []"
| "types_str (Some ts) = [s. Inl s \<leftarrow> ts]"

fun types_types :: "type_spec list option \<Rightarrow> msg_class list" where
  "types_types None = []"
| "types_types (Some ts) = [c. Inr c \<leftarrow> ts]"

text \<open>\<^verbatim>\<open>xs and v in xs\<close> for an optional list of strings and an optional string \<open>v\<close>.\<close>

fun opt_in :: "string option \<Rightarrow> string list option \<Rightarrow> bool" where
  "opt_in v None = False"
| "opt_in None (Some xs) = False"
| "opt_in (Some s) (Some xs) = (s \<in> set xs)"

definition excluded :: "string list option \<Rightarrow> type_spec list option \<Rightarrow> string list option \<Rightarrow> message \<Rightarrow> bool" where
  "excluded excl_names excl_types excl_ids msg =
     (if opt_in (name msg) excl_names then True
      else if msg_type msg \<in> set (types_str excl_types) then True
      else if types_types excl_types \<noteq> [] \<and> str_isinstance_any (msg_type msg) (types_types excl_types) then True
      else if opt_in (msg_id msg) excl_ids then True
      else False)"

definition included :: "string list option \<Rightarrow> type_spec list option \<Rightarrow> string list option \<Rightarrow> message \<Rightarrow> bool" where
  "included incl_names incl_types incl_ids msg =
     (if opt_in (name msg) incl_names then True
      else if msg_type msg \<in> set (types_str incl_types) then True
      else if types_types incl_types \<noteq> [] \<and> isinstance_any msg (types_types incl_types) then True
      else if opt_in (msg_id msg) incl_ids then True
      else False)"

fun filter_loop ::
  "string list option \<Rightarrow> string list option \<Rightarrow> type_spec list option \<Rightarrow> type_spec list option \<Rightarrow>
   string list option \<Rightarrow> string list option \<Rightarrow> message list \<Rightarrow> message list \<Rightarrow> message list" where
  "filter_loop incl_names excl_names incl_types excl_types incl_ids excl_ids filtered [] = filtered"
| "filter_loop incl_names excl_names incl_types excl_types incl_ids excl_ids filtered (msg # msgs) =
     (if excluded excl_names excl_types excl_ids msg
      then filter_loop incl_names excl_names incl_types excl_types incl_ids excl_ids filtered msgs
      else if included incl_names incl_types incl_ids msg
      then filter_loop incl_names excl_names incl_types excl_types incl_ids excl_ids (filtered @ [msg]) msgs
      else filter_loop incl_names excl_names incl_types excl_types incl_ids excl_ids filtered msgs)"

definition filter_messages ::
  "message list \<Rightarrow> string list option \<Rightarrow> string list option \<Rightarrow> type_spec list option \<Rightarrow>
   type_spec list option \<Rightarrow> string list option \<Rightarrow> string list option \<Rightarrow> message list" where
  "filter_messages messages incl_names excl_names incl_types excl_types incl_ids excl_ids =
     filter_loop incl_names excl_names incl_types excl_types incl_ids excl_ids [] messages"

section \<open>trim_messages\<close>

text \<open>
  The token counter is supplied by the caller, as a function of one message (then summed
  over the list) or as a function of the list. Which of the two is decided in the source
  by inspecting the annotation of the first parameter; here the caller says it by the
  constructor.
\<close>

datatype token_counter = PerMessage "message \<Rightarrow> int" | PerList "message list \<Rightarrow> int"

fun list_token_counter :: "token_counter \<Rightarrow> message list \<Rightarrow> int" where
  "list_token_counter (PerMessage f) messages = sum_list (map f messages)"
| "list_token_counter (PerList g) messages = g messages"

text \<open>
  \<^verbatim>\<open>end_on\<close> and \<^verbatim>\<open>start_on\<close> are declared
  \<^verbatim>\<open>Optional[Sequence[Union[str, Type[BaseMessage]]]]\<close>: absent, one string, one class, or a
  list or tuple of strings and classes.
\<close>

datatype boundary = OneStr string | OneClass msg_class | Several "type_spec list"

text \<open>Truth value of the argument in \<^verbatim>\<open>if end_on and ...\<close>.\<close>

fun truthy :: "boundary option \<Rightarrow> bool" where
  "truthy None = False"
| "truthy (Some (OneStr s)) = (s \<noteq> [])"
| "truthy (Some (OneClass c)) = True"
| "truthy (Some (Several ts)) = (ts \<noteq> [])"

text \<open>
  The search for the prefix: \<open>i\<close> runs over \<^verbatim>\<open>range(len(messages))\<close>, the candidate is
  \<^verbatim>\<open>messages[:-i]\<close> (the whole list for \<open>i = 0\<close>), and \<open>idx\<close> stays \<open>0\<close> when the loop ends
  without a \<^verbatim>\<open>break\<close>.
\<close>

function first_fit :: "(message list \<Rightarrow> int) \<Rightarrow> int \<Rightarrow> message list \<Rightarrow> nat \<Rightarrow> nat" where
  "first_fit tc n_tokens messages i =
     (if i < length messages
      then (if tc (if i \<noteq> 0 then take (length messages - i) messages else messages) \<le> n_tokens
            then length messages - i
            else first_fit tc n_tokens messages (Suc i))
      else 0)"
  by pat_completeness auto
termination
  by (relation "measure (\<lambda>(tc, n_tokens, messages, i). length messages - i)") auto

declare first_fit.simps [simp del]

text \<open>
  The loop \<^verbatim>\<open>for _ in range(1, num): excluded.content = excluded.content[:-1]; ...\<close> over a
  copy of the boundary message: \<open>k\<close> is the number of iterations left, \<open>bs\<close> the content
  of the copy. The result is the copy that was accepted, if one was.
\<close>

fun drop_loop ::
  "(message list \<Rightarrow> int) \<Rightarrow> int \<Rightarrow> message list \<Rightarrow> message \<Rightarrow> block list \<Rightarrow> nat \<Rightarrow> message option" where
  "drop_loop tc n_tokens pre excl bs 0 = None"
| "drop_loop tc n_tokens pre excl bs (Suc k) =
     (let excl' = excl\<lparr>content := Blocks (butlast bs)\<rparr>
      in if tc (pre @ [excl']) \<le> n_tokens then Some excl'
         else drop_loop tc n_tokens pre excl' (butlast bs) k)"

text \<open>
  The first block that is a string or has \<^verbatim>\<open>block["type"] == "text"\<close>, as \<^verbatim>\<open>any(...)\<close> and
  then \<^verbatim>\<open>next(...)\<close> find it; a dictionary without the key \<^verbatim>\<open>"type"\<close> met on the way
  raises \<^verbatim>\<open>KeyError\<close>.
\<close>

fun first_text_block :: "block list \<Rightarrow> error + block option" where
  "first_text_block [] = Inr None"
| "first_text_block (StrBlock s # bs) = Inr (Some (StrBlock s))"
| "first_text_block (DictBlock d # bs) =
     (case map_of d ''type'' of
        None \<Rightarrow> Inl KeyError
      | Some t \<Rightarrow> if t = ''text'' then Inr (Some (DictBlock d)) else first_text_block bs)"

fun block_text :: "block \<Rightarrow> error + string" where
  "block_text (StrBlock s) = Inr s"
| "block_text (DictBlock d) = (case map_of d ''text'' of None \<Rightarrow> Inl KeyError | Some t \<Rightarrow> Inr t)"

text \<open>The variable \<^verbatim>\<open>text\<close>: \<open>None\<close> where the source sets it to \<^verbatim>\<open>None\<close>.\<close>

fun boundary_text :: "msg_content \<Rightarrow> error + string option" where
  "boundary_text (Str s) = Inr (Some s)"
| "boundary_text (Blocks bs) =
     (case first_text_block bs of
        Inl e \<Rightarrow> Inl e
      | Inr None \<Rightarrow> Inr None
      | Inr (Some b) \<Rightarrow> (case block_text b of Inl e \<Rightarrow> Inl e | Inr t \<Rightarrow> Inr (Some t)))"

text \<open>\<^verbatim>\<open>str.split(sep)\<close> for a separator of one character.\<close>

fun split_on :: "char \<Rightarrow> string \<Rightarrow> string list" where
  "split_on c [] = [[]]"
| "split_on c (x # xs) =
     (if x = c then [] # split_on c xs
      else (case split_on c xs of [] \<Rightarrow> [[x]] | p # ps \<Rightarrow> (x # p) # ps))"

definition default_text_splitter :: "string \<Rightarrow> string list" where
  "default_text_splitter text = split_on (CHR 0x0A) text"

definition text_block :: "string \<Rightarrow> block" where
  "text_block t = DictBlock [(''type'', ''text''), (''text'', t)]"

text \<open>
  The body of \<^verbatim>\<open>if idx < len(messages) - 1 and allow_partial\<close>: the new \<^verbatim>\<open>messages\<close> and
  \<^verbatim>\<open>idx\<close>.
\<close>

definition partial_step ::
  "(message list \<Rightarrow> int) \<Rightarrow> int \<Rightarrow> (string \<Rightarrow> string list) \<Rightarrow> message list \<Rightarrow> nat \<Rightarrow>
   error + (message list \<times> nat)" where
  "partial_step tc n_tokens text_splitter messages idx =
     (if idx < length messages then
        (let m = messages ! idx; pre = take idx messages in
         case (case content m of
                 Blocks bs \<Rightarrow> drop_loop tc n_tokens pre m bs (length bs - 1)
               | Str s \<Rightarrow> None) of
           Some excl \<Rightarrow> Inr (pre @ [excl], idx + 1)
         | None \<Rightarrow>
             (case boundary_text (content m) of
                Inl e \<Rightarrow> Inl e
              | Inr None \<Rightarrow> Inr (messages, idx)
              | Inr (Some text) \<Rightarrow>
                  if text = [] then Inr (messages, idx)
                  else (let split_texts = text_splitter text in
                        case drop_loop tc n_tokens pre m (map text_block split_texts)
                               (length split_texts - 1) of
                          Some excl \<Rightarrow> Inr (pre @ [excl], idx + 1)
                        | None \<Rightarrow> Inr (messages, idx))))
      else Inl IndexError)"

text \<open>
  \<^verbatim>\<open>while <messages[idx - 1] does not match> and idx > 0: idx = idx - 1\<close>. The element is
  read before \<^verbatim>\<open>idx > 0\<close> is tested: for \<open>idx = 0\<close> it is \<^verbatim>\<open>messages[-1]\<close>, which raises
  on the empty list and otherwise only ends the loop.
\<close>

fun walk_back :: "(message \<Rightarrow> bool) \<Rightarrow> message list \<Rightarrow> nat \<Rightarrow> error + nat" where
  "walk_back matches messages 0 = (if messages = [] then Inl IndexError else Inr 0)"
| "walk_back matches messages (Suc i) =
     (if i < length messages
      then (if matches (messages ! i) then Inr (Suc i) else walk_back matches messages i)
      else Inl IndexError)"

definition first_n_tokens ::
  "message list \<Rightarrow> int \<Rightarrow> (message list \<Rightarrow> int) \<Rightarrow> bool \<Rightarrow> boundary option \<Rightarrow>
   (string \<Rightarrow> string list) option \<Rightarrow> error + message list" where
  "first_n_tokens messages n_tokens tc allow_partial end_on text_splitter =
     (let splitter = (case text_splitter of None \<Rightarrow> default_text_splitter | Some f \<Rightarrow> f);
          idx = first_fit tc n_tokens messages 0
      in case (if int idx < int (length messages) - 1 \<and> allow_partial
               then partial_step tc n_tokens splitter messages idx
               else Inr (messages, idx)) of
           Inl e \<Rightarrow> Inl e
         | Inr (messages', idx') \<Rightarrow>
             (case end_on of
                Some (OneStr s) \<Rightarrow>
                  (case walk_back (\<lambda>m. msg_type m = s) messages' idx' of
                     Inl e \<Rightarrow> Inl e
                   | Inr i \<Rightarrow> Inr (take i messages'))
              | Some (OneClass c) \<Rightarrow>
                  (case walk_back (\<lambda>m. isinstance m c) messages' idx' of
                     Inl e \<Rightarrow> Inl e
                   | Inr i \<Rightarrow> Inr (take i messages'))
              | Some (Several ts) \<Rightarrow> Inr (take idx' messages')
              | None \<Rightarrow> Inr (take idx' messages')))"

text \<open>
  The slice \<^verbatim>\<open>xs[1::-1]\<close>: from index 1 (or from the last index, when the list is shorter)
  down to index 0.
\<close>

definition slice_1_down :: "'a list \<Rightarrow> 'a list" where
  "slice_1_down xs = rev (take 2 xs)"

definition last_n_tokens ::
  "message list \<Rightarrow> int \<Rightarrow> (message list \<Rightarrow> int) \<Rightarrow> bool \<Rightarrow> bool \<Rightarrow> boundary option \<Rightarrow>
   error + message list" where
  "last_n_tokens messages n_tokens tc allow_partial keep_system start_on =
     (case (if keep_system
            then (case messages of [] \<Rightarrow> Inl IndexError | m # ms \<Rightarrow> Inr (isinstance m (Plain System)))
            else Inr False) of
        Inl e \<Rightarrow> Inl e
      | Inr swapped_system \<Rightarrow>
          (let reversed = (if swapped_system then take 1 messages @ slice_1_down messages
                           else rev messages)
           in case first_n_tokens reversed n_tokens tc allow_partial start_on None of
                Inl e \<Rightarrow> Inl e
              | Inr reversed' \<Rightarrow>
                  Inr (if swapped_system then take 1 reversed' @ slice_1_down reversed'
                       else rev reversed')))"

definition trim_messages ::
  "message list \<Rightarrow> int \<Rightarrow> token_counter \<Rightarrow> string \<Rightarrow> bool \<Rightarrow> boundary option \<Rightarrow>
   boundary option \<Rightarrow> bool \<Rightarrow> error + message list" where
  "trim_messages messages n_tokens token_counter strategy allow_partial end_on start_on keep_system =
     (if truthy end_on \<and> strategy = ''last'' then Inl ValueError
      else if truthy start_on \<and> strategy = ''first'' then Inl ValueError
      else if keep_system \<and> strategy = ''first'' then Inl ValueError
      else if strategy = ''first''
        then first_n_tokens messages n_tokens (list_token_counter token_counter) allow_partial end_on None
      else if strategy = ''last''
        then last_n_tokens messages n_tokens (list_token_counter token_counter) allow_partial
               keep_system start_on
      else Inl ValueError)"

section \<open>merge_message_runs\<close>

text \<open>
  \<^verbatim>\<open>_msg_to_chunk\<close> builds the chunk class of the message's variant from the fields of the
  message (all but \<^verbatim>\<open>type\<close>): each of the twelve classes is, or inherits from, a key of
  \<^verbatim>\<open>_MSG_CHUNK_MAP\<close>, so the final \<^verbatim>\<open>raise\<close> is not reached.
\<close>

definition msg_to_chunk :: "message \<Rightarrow> message" where
  "msg_to_chunk m = m\<lparr>cls := Chunk (variant_of (cls m))\<rparr>"

text \<open>
  \<^verbatim>\<open>_chunk_to_msg\<close>: the keys of \<^verbatim>\<open>_CHUNK_MSG_MAP\<close> are the six chunk classes; an object
  of a plain class is an instance of none of them and reaches the \<^verbatim>\<open>raise\<close>.
\<close>

fun chunk_to_msg :: "message \<Rightarrow> error + message" where
  "chunk_to_msg c =
     (case cls c of
        Chunk v \<Rightarrow> Inr (c\<lparr>cls := Plain v\<rparr>)
      | Plain v \<Rightarrow> Inl ValueError)"

text \<open>
  Modelled from the spec: the operation \<^verbatim>\<open>chunk_a + chunk_b\<close> of the chunk classes, which is
  not part of the sources at hand. The spec describes it as combining the contents and
  the other fields of the two chunks into a chunk of the same variant. How the fields are
  combined, and when that fails, is the parameter \<open>add_fields\<close>; the class of the sum is
  the class of the left operand.
\<close>

definition chunk_add ::
  "(message \<Rightarrow> message \<Rightarrow> error + message) \<Rightarrow> message \<Rightarrow> message \<Rightarrow> error + message" where
  "chunk_add add_fields a b =
     (case add_fields a b of
        Inl e \<Rightarrow> Inl e
      | Inr c \<Rightarrow> Inr (c\<lparr>cls := cls a\<rparr>))"

text \<open>
  The loop of \<^verbatim>\<open>merge_message_runs\<close> over \<^verbatim>\<open>messages[1:]\<close>, with the list \<^verbatim>\<open>merged\<close>
  as accumulator; \<^verbatim>\<open>last = merged.pop()\<close> raises on an empty list. The deep copies are
  equal to their originals.
\<close>

fun merge_loop ::
  "(message \<Rightarrow> message \<Rightarrow> error + message) \<Rightarrow> message list \<Rightarrow> message list \<Rightarrow> error + message list" where
  "merge_loop add_fields merged [] = Inr merged"
| "merge_loop add_fields merged (cur # msgs) =
     (if merged = [] then Inl IndexError
      else if \<not> isinstance cur (cls (last merged))
        then merge_loop add_fields (butlast merged @ [last merged, cur]) msgs
      else (case chunk_add add_fields (msg_to_chunk (last merged)) (msg_to_chunk cur) of
              Inl e \<Rightarrow> Inl e
            | Inr c \<Rightarrow>
                (case chunk_to_msg c of
                   Inl e \<Rightarrow> Inl e
                 | Inr m \<Rightarrow> merge_loop add_fields (butlast merged @ [m]) msgs)))"

fun merge_message_runs ::
  "(message \<Rightarrow> message \<Rightarrow> error + message) \<Rightarrow> message list \<Rightarrow> error + message list" where
  "merge_message_runs add_fields [] = Inr []"
| "merge_message_runs add_fields (m # msgs) = merge_loop add_fields [m] msgs"

text \<open>
  A list in which no message is an instance of the class of the message before it: the
  loop of \<^verbatim>\<open>merge_message_runs\<close> merges nothing in such a list.
\<close>

fun settled :: "message list \<Rightarrow> bool" where
  "settled [] = True"
| "settled [m] = True"
| "settled (a # b # ms) = (\<not> isinstance b (cls a) \<and> settled (b # ms))"

section \<open>Example inputs\<close>

text \<open>A message built with its content only, as in \<^verbatim>\<open>HumanMessage("a")\<close>.\<close>

definition message_of :: "msg_class \<Rightarrow> msg_content \<Rightarrow> message" where
  "message_of c t =
     \<lparr>cls = c, content = t, name = None, msg_id = None, role = [], additional_kwargs = []\<rparr>"

text \<open>A counter that charges every message one token.\<close>

definition unit_cost :: token_counter where
  "unit_cost = PerMessage (\<lambda>m. 1)"

text \<open>A counter that charges every message the number of characters of its text.\<close>

fun block_chars :: "block \<Rightarrow> int" where
  "block_chars (StrBlock s) = int (length s)"
| "block_chars (DictBlock d) = (case map_of d ''text'' of None \<Rightarrow> 0 | Some t \<Rightarrow> int (length t))"

fun content_chars :: "msg_content \<Rightarrow> int" where
  "content_chars (Str s) = int (length s)"
| "content_chars (Blocks bs) = sum_list (map block_chars bs)"

definition char_cost :: token_counter where
  "char_cost = PerMessage (\<lambda>m. content_chars (content m))"

text \<open>
  A counter of the whole list that charges three tokens for every call and one more for
  every message, as counters for chat formats with a fixed framing cost do.
\<close>

definition overhead_cost :: token_counter where
  "overhead_cost = PerList (\<lambda>messages. 3 + int (length messages))"

text \<open>
  A way to combine the fields of two chunks: string contents are concatenated, the other
  fields are those of the left operand, and contents that are not both strings are
  refused.
\<close>

definition concat_str_content :: "message \<Rightarrow> message \<Rightarrow> error + message" where
  "concat_str_content a b =
     (case content a of
        Str x \<Rightarrow> (case content b of
                    Str y \<Rightarrow> Inr (a\<lparr>content := Str (x @ y)\<rparr>)
                  | Blocks ys \<Rightarrow> Inl ValueError)
      | Blocks xs \<Rightarrow> Inl ValueError)"

section \<open>Facts about filter_messages\<close>

lemma not_included_none: "\<not> included None None None msg"
  by (simp add: included_def)

lemma filter_loop_no_include:
  "filter_loop None excl_names None excl_types None excl_ids filtered msgs = filtered"
  by (induction msgs arbitrary: filtered) (simp_all add: not_included_none)

lemma filter_loop_eq:
  "filter_loop incl_names excl_names incl_types excl_types incl_ids excl_ids filtered msgs
   = filtered @ filter (\<lambda>m. \<not> excluded excl_names excl_types excl_ids m
                              \<and> included incl_names incl_types incl_ids m) msgs"
  by (induction msgs arbitrary: filtered) simp_all

lemma filter_excludes_names_labels_ids:
  assumes "m \<in> set (filter_messages messages incl_names excl_names incl_types excl_types incl_ids excl_ids)"
  shows "\<not> opt_in (name m) excl_names \<and> msg_type m \<notin> set (types_str excl_types)
         \<and> \<not> opt_in (msg_id m) excl_ids"
proof -
  have "\<not> excluded excl_names excl_types excl_ids m"
    using assms by (simp add: filter_messages_def filter_loop_eq)
  then show ?thesis
    by (auto simp: excluded_def split: if_splits)
qed

text \<open>
  C7: for every message sequence, \<^verbatim>\<open>filter_messages\<close> called with no include criterion
  (names, types and ids all absent) and no exclude criterion returns the empty list.
\<close>

theorem filter_no_criteria_empty:
  "filter_messages messages None None None None None None = []"
  by (simp add: filter_messages_def filter_loop_no_include)

text \<open>
  C6, evaluated where the code departs from it: a human message is asked for by class and
  excluded by the same class, and \<^verbatim>\<open>filter_messages\<close> returns it. The exclusion tests
  \<^verbatim>\<open>isinstance(msg.type, excl_types_types)\<close>, the inclusion \<^verbatim>\<open>isinstance(msg, incl_types_types)\<close>.
  Exclusion by name, by type label and by id does hold
  (\<open>filter_excludes_names_labels_ids\<close>).
\<close>

theorem filter_excluded_class_kept:
  "filter_messages [message_of (Plain Human) (Str ''a'')] None None
     (Some [Inr (Plain Human)]) (Some [Inr (Plain Human)]) None None
   = [message_of (Plain Human) (Str ''a'')]"
  by (simp add: filter_messages_def excluded_def included_def message_of_def msg_type_def
      str_isinstance_any_def isinstance_any_def isinstance_def)

section \<open>Facts about the prefix search and the boundary walk\<close>

lemma first_fit_le: "first_fit tc n ms i \<le> length ms"
proof (induction tc n ms i rule: first_fit.induct)
  case (1 tc n ms i)
  show ?case
  proof (cases "i < length ms")
    case True
    with 1 show ?thesis by (subst first_fit.simps) simp
  next
    case False
    then show ?thesis by (subst first_fit.simps) simp
  qed
qed

lemma walk_back_ok:
  "ms \<noteq> [] \<Longrightarrow> i \<le> length ms \<Longrightarrow>
   \<exists>j. walk_back p ms i = Inr j \<and> j \<le> i \<and> (j = 0 \<or> p (ms ! (j - 1)))"
  by (induction i) auto




lemma drop_loop_SomeD:
  "drop_loop tc n pre ex bs k = Some e \<Longrightarrow> k < length bs \<Longrightarrow>
   \<exists>j. length bs - k \<le> j \<and> j < length bs \<and> e = ex\<lparr>content := Blocks (take j bs)\<rparr>
       \<and> tc (pre @ [e]) \<le> n
       \<and> (\<forall>j'. j < j' \<and> j' < length bs \<longrightarrow> \<not> tc (pre @ [ex\<lparr>content := Blocks (take j' bs)\<rparr>]) \<le> n)"
proof (induction k arbitrary: ex bs)
  case 0
  then show ?case by simp
next
  case (Suc k)
  let ?bs' = "butlast bs"
  let ?ex' = "ex\<lparr>content := Blocks ?bs'\<rparr>"
  have len: "length ?bs' = length bs - 1" by simp
  have bl: "?bs' = take (length bs - 1) bs" by (simp add: butlast_conv_take)
  show ?case
  proof (cases "tc (pre @ [?ex']) \<le> n")
    case True
    with Suc.prems have e: "e = ?ex'" by (simp add: Let_def)
    have "length bs - Suc k \<le> length bs - 1" by simp
    moreover have "length bs - 1 < length bs" using Suc.prems(2) by simp
    moreover have "e = ex\<lparr>content := Blocks (take (length bs - 1) bs)\<rparr>" using e bl by simp
    moreover have "tc (pre @ [e]) \<le> n" using True e by simp
    moreover have "\<forall>j'. length bs - 1 < j' \<and> j' < length bs \<longrightarrow>
        \<not> tc (pre @ [ex\<lparr>content := Blocks (take j' bs)\<rparr>]) \<le> n" by auto
    ultimately show ?thesis by blast
  next
    case False
    with Suc.prems have rec: "drop_loop tc n pre ?ex' ?bs' k = Some e" by (simp add: Let_def)
    have k: "k < length ?bs'" using Suc.prems(2) by simp
    from Suc.IH[OF rec k] obtain j where j:
      "length ?bs' - k \<le> j" "j < length ?bs'" "e = ?ex'\<lparr>content := Blocks (take j ?bs')\<rparr>"
      "tc (pre @ [e]) \<le> n"
      "\<forall>j'. j < j' \<and> j' < length ?bs' \<longrightarrow> \<not> tc (pre @ [?ex'\<lparr>content := Blocks (take j' ?bs')\<rparr>]) \<le> n"
      by blast
    have tk: "\<And>i. i < length ?bs' \<Longrightarrow> take i ?bs' = take i bs"
      by (simp add: take_butlast)
    have "length bs - Suc k \<le> j" using j(1) by simp
    moreover have "j < length bs" using j(2) by simp
    moreover have "e = ex\<lparr>content := Blocks (take j bs)\<rparr>" using j(2,3) tk by simp
    moreover have "\<forall>j'. j < j' \<and> j' < length bs \<longrightarrow>
        \<not> tc (pre @ [ex\<lparr>content := Blocks (take j' bs)\<rparr>]) \<le> n"
    proof (intro allI impI)
      fix j' assume a: "j < j' \<and> j' < length bs"
      show "\<not> tc (pre @ [ex\<lparr>content := Blocks (take j' bs)\<rparr>]) \<le> n"
      proof (cases "j' < length ?bs'")
        case True
        with j(5) a have "\<not> tc (pre @ [?ex'\<lparr>content := Blocks (take j' ?bs')\<rparr>]) \<le> n" by blast
        with True tk show ?thesis by simp
      next
        case F: False
        with a have "j' = length bs - 1" by (simp, arith)
        with False bl show ?thesis by simp
      qed
    qed
    ultimately show ?thesis using j(4) by blast
  qed
qed

lemma drop_loop_fits:
  "length bs - k \<le> j \<Longrightarrow> j < length bs \<Longrightarrow>
   tc (pre @ [ex\<lparr>content := Blocks (take j bs)\<rparr>]) \<le> n \<Longrightarrow>
   (\<forall>j'. j < j' \<and> j' < length bs \<longrightarrow> \<not> tc (pre @ [ex\<lparr>content := Blocks (take j' bs)\<rparr>]) \<le> n) \<Longrightarrow>
   0 < j \<Longrightarrow>
   drop_loop tc n pre ex bs k = Some (ex\<lparr>content := Blocks (take j bs)\<rparr>)"
proof (induction k arbitrary: ex bs)
  case 0
  then show ?case by simp
next
  case (Suc k)
  let ?bs' = "butlast bs"
  let ?ex' = "ex\<lparr>content := Blocks ?bs'\<rparr>"
  have bl: "?bs' = take (length bs - 1) bs" by (simp add: butlast_conv_take)
  have tk: "\<And>i. i < length ?bs' \<Longrightarrow> take i ?bs' = take i bs"
    by (simp add: take_butlast)
  show ?case
  proof (cases "j = length bs - 1")
    case True
    with Suc.prems(3) bl show ?thesis by (simp add: Let_def)
  next
    case False
    with Suc.prems(2) have jl: "j < length ?bs'" by simp
    have nf: "\<not> tc (pre @ [?ex']) \<le> n"
      using Suc.prems(4) jl bl Suc.prems(2) by (metis diff_less length_butlast less_nat_zero_code not_gr_zero zero_less_one)
    have "drop_loop tc n pre ?ex' ?bs' k = Some (?ex'\<lparr>content := Blocks (take j ?bs')\<rparr>)"
    proof (rule Suc.IH)
      show "length ?bs' - k \<le> j" using Suc.prems(1) by simp
      show "j < length ?bs'" by (rule jl)
      show "tc (pre @ [?ex'\<lparr>content := Blocks (take j ?bs')\<rparr>]) \<le> n"
        using Suc.prems(3) tk[OF jl] by simp
      show "\<forall>j'. j < j' \<and> j' < length ?bs' \<longrightarrow>
          \<not> tc (pre @ [?ex'\<lparr>content := Blocks (take j' ?bs')\<rparr>]) \<le> n"
      proof (intro allI impI)
        fix j' assume a: "j < j' \<and> j' < length ?bs'"
        then have "j' < length bs" by (simp, arith)
        with a Suc.prems(4) have "\<not> tc (pre @ [ex\<lparr>content := Blocks (take j' bs)\<rparr>]) \<le> n"
          by blast
        with a tk[of j'] show "\<not> tc (pre @ [?ex'\<lparr>content := Blocks (take j' ?bs')\<rparr>]) \<le> n"
          by simp
      qed
      show "0 < j" by (rule Suc.prems(5))
    qed
    with nf tk[OF jl] show ?thesis by (simp add: Let_def)
  qed
qed


lemma drop_loop_nonempty:
  assumes "drop_loop tc n pre ex bs (length bs - 1) = Some e"
  shows "\<exists>bs'. bs' \<noteq> [] \<and> e = ex\<lparr>content := Blocks bs'\<rparr> \<and> tc (pre @ [e]) \<le> n"
proof (cases "bs = []")
  case True
  with assms show ?thesis by simp
next
  case False
  then have k: "length bs - 1 < length bs" by simp
  from drop_loop_SomeD[OF assms k] obtain j where
    j: "length bs - (length bs - 1) \<le> j" "j < length bs"
       "e = ex\<lparr>content := Blocks (take j bs)\<rparr>" "tc (pre @ [e]) \<le> n"
    by blast
  from j(1) False have "0 < j" by (cases bs) simp_all
  with False have "take j bs \<noteq> []" by simp
  with j(3,4) show ?thesis by blast
qed

lemma partial_step_cases:
  assumes "partial_step tc n sp ms idx = Inr (ms', idx')"
  shows "idx < length ms \<and>
         ((ms' = ms \<and> idx' = idx) \<or>
          (\<exists>bs. bs \<noteq> [] \<and> ms' = take idx ms @ [(ms ! idx)\<lparr>content := Blocks bs\<rparr>]
                \<and> idx' = idx + 1 \<and> tc ms' \<le> n))"
proof -
  have lt: "idx < length ms"
    using assms by (cases "idx < length ms") (simp_all add: partial_step_def)
  let ?m = "ms ! idx"
  let ?pre = "take idx ms"
  let ?first = "case content ?m of Blocks bs \<Rightarrow> drop_loop tc n ?pre ?m bs (length bs - 1)
                | Str s \<Rightarrow> None"
  have acc: "\<And>bs e. drop_loop tc n ?pre ?m bs (length bs - 1) = Some e \<Longrightarrow>
      \<exists>bs'. bs' \<noteq> [] \<and> ?pre @ [e] = ?pre @ [?m\<lparr>content := Blocks bs'\<rparr>] \<and> tc (?pre @ [e]) \<le> n"
    using drop_loop_nonempty by blast
  show ?thesis
  proof (cases ?first)
    case (Some e)
    then obtain bs where "drop_loop tc n ?pre ?m bs (length bs - 1) = Some e"
      by (cases "content ?m") simp_all
    from acc[OF this] Some assms lt show ?thesis
      by (auto simp: partial_step_def Let_def)
  next
    case None
    show ?thesis
    proof (cases "boundary_text (content ?m)")
      case (Inl err)
      with None assms lt show ?thesis by (simp add: partial_step_def Let_def)
    next
      case (Inr t)
      show ?thesis
      proof (cases t)
        case N: None
        with Inr None assms lt show ?thesis by (simp add: partial_step_def Let_def)
      next
        case (Some tx)
        show ?thesis
        proof (cases "tx = []")
          case True
          with Some Inr None assms lt show ?thesis by (simp add: partial_step_def Let_def)
        next
          case False
          let ?bs = "map text_block (sp tx)"
          show ?thesis
          proof (cases "drop_loop tc n ?pre ?m ?bs (length (sp tx) - 1)")
            case N2: None
            with False Some Inr None assms lt show ?thesis
              by (simp add: partial_step_def Let_def)
          next
            case (Some e)
            then have "drop_loop tc n ?pre ?m ?bs (length ?bs - 1) = Some e" by simp
            from acc[OF this] Some False \<open>t = Some tx\<close> Inr None assms lt show ?thesis
              by (auto simp: partial_step_def Let_def)
          qed
        qed
      qed
    qed
  qed
qed


lemma phase_cases:
  assumes "(if int idx < int (length ms) - 1 \<and> ap then partial_step tc n sp ms idx
            else Inr (ms, idx)) = Inr (ms', idx')"
    and "idx \<le> length ms"
  shows "idx' \<le> length ms' \<and> (ms' = [] \<longleftrightarrow> ms = []) \<and>
         ((ms' = ms \<and> idx' = idx) \<or>
          (ap \<and> idx < length ms \<and>
           (\<exists>bs. bs \<noteq> [] \<and> ms' = take idx ms @ [(ms ! idx)\<lparr>content := Blocks bs\<rparr>]
                 \<and> idx' = idx + 1 \<and> tc ms' \<le> n)))"
proof (cases "int idx < int (length ms) - 1 \<and> ap")
  case True
  with assms(1) have "partial_step tc n sp ms idx = Inr (ms', idx')" by simp
  from partial_step_cases[OF this] True assms(2) show ?thesis by auto
next
  case False
  with assms show ?thesis by auto
qed


lemma first_n_tokens_cases:
  assumes "first_n_tokens ms n tc ap eo sp = Inr out"
  shows "\<exists>ms' idx' j. j \<le> idx' \<and> idx' \<le> length ms' \<and> out = take j ms' \<and>
           ((ms' = ms \<and> idx' = first_fit tc n ms 0) \<or>
            (ap \<and> first_fit tc n ms 0 < length ms \<and>
             (\<exists>bs. bs \<noteq> [] \<and>
                ms' = take (first_fit tc n ms 0) ms
                        @ [(ms ! first_fit tc n ms 0)\<lparr>content := Blocks bs\<rparr>]
                \<and> idx' = first_fit tc n ms 0 + 1 \<and> tc ms' \<le> n))) \<and>
           (case eo of
              Some (OneStr s) \<Rightarrow> j = 0 \<or> msg_type (ms' ! (j - 1)) = s
            | Some (OneClass c) \<Rightarrow> j = 0 \<or> isinstance (ms' ! (j - 1)) c
            | Some (Several ts) \<Rightarrow> j = idx'
            | None \<Rightarrow> j = idx')"
proof -
  define splitter where "splitter = (case sp of None \<Rightarrow> default_text_splitter | Some f \<Rightarrow> f)"
  define idx where "idx = first_fit tc n ms 0"
  define P where "P = (if int idx < int (length ms) - 1 \<and> ap
                       then partial_step tc n splitter ms idx else Inr (ms, idx))"
  have le: "idx \<le> length ms" by (simp add: idx_def first_fit_le)
  have unf: "first_n_tokens ms n tc ap eo sp =
     (case P of Inl e \<Rightarrow> Inl e
      | Inr (ms', idx') \<Rightarrow>
         (case eo of
            Some (OneStr s) \<Rightarrow>
              (case walk_back (\<lambda>m. msg_type m = s) ms' idx' of
                 Inl e \<Rightarrow> Inl e | Inr i \<Rightarrow> Inr (take i ms'))
          | Some (OneClass c) \<Rightarrow>
              (case walk_back (\<lambda>m. isinstance m c) ms' idx' of
                 Inl e \<Rightarrow> Inl e | Inr i \<Rightarrow> Inr (take i ms'))
          | Some (Several ts) \<Rightarrow> Inr (take idx' ms')
          | None \<Rightarrow> Inr (take idx' ms')))"
    by (simp add: first_n_tokens_def Let_def P_def idx_def splitter_def)
  from assms unf obtain ms' idx' where P: "P = Inr (ms', idx')"
    by (cases P) auto
  from phase_cases[OF P[unfolded P_def] le]
  have ph: "idx' \<le> length ms'" "ms' = [] \<longleftrightarrow> ms = []"
    "(ms' = ms \<and> idx' = idx) \<or>
     (ap \<and> idx < length ms \<and>
      (\<exists>bs. bs \<noteq> [] \<and> ms' = take idx ms @ [(ms ! idx)\<lparr>content := Blocks bs\<rparr>]
            \<and> idx' = idx + 1 \<and> tc ms' \<le> n))"
    by blast+
  have wb: "\<And>p i. walk_back p ms' idx' = Inr i \<Longrightarrow> i \<le> idx' \<and> (i = 0 \<or> p (ms' ! (i - 1)))"
  proof -
    fix p i assume w: "walk_back p ms' idx' = Inr i"
    have "ms' \<noteq> []" using w by (cases idx') (auto split: if_splits)
    from walk_back_ok[OF this ph(1), of p] w show "i \<le> idx' \<and> (i = 0 \<or> p (ms' ! (i - 1)))"
      by auto
  qed
  show ?thesis
  proof (cases eo)
    case None
    with assms unf P have "out = take idx' ms'" by simp
    with ph None show ?thesis unfolding idx_def by auto
  next
    case (Some b)
    show ?thesis
    proof (cases b)
      case (OneStr s)
      with Some assms unf P obtain i where
        i: "walk_back (\<lambda>m. msg_type m = s) ms' idx' = Inr i" "out = take i ms'"
        by (auto split: sum.splits)
      from wb[OF i(1)] i(2) ph Some OneStr show ?thesis unfolding idx_def
        by (intro exI[of _ ms'] exI[of _ idx'] exI[of _ i]) auto
    next
      case (OneClass c)
      with Some assms unf P obtain i where
        i: "walk_back (\<lambda>m. isinstance m c) ms' idx' = Inr i" "out = take i ms'"
        by (auto split: sum.splits)
      from wb[OF i(1)] i(2) ph Some OneClass show ?thesis unfolding idx_def
        by (intro exI[of _ ms'] exI[of _ idx'] exI[of _ i]) auto
    next
      case (Several ts)
      with Some assms unf P have "out = take idx' ms'" by simp
      with ph Some Several show ?thesis unfolding idx_def by auto
    qed
  qed
qed


section \<open>Facts about trim_messages\<close>






lemma last_take_nth:
  assumes "j \<noteq> 0" and "j \<le> length xs"
  shows "last (take j xs) = xs ! (j - 1)"
proof -
  have ne: "take j xs \<noteq> []" using assms by auto
  have "last (take j xs) = take j xs ! (length (take j xs) - 1)"
    by (rule last_conv_nth[OF ne])
  also have "\<dots> = take j xs ! (j - 1)" using assms by simp
  also have "\<dots> = xs ! (j - 1)" using assms by simp
  finally show ?thesis .
qed

lemma first_n_tokens_end_on:
  assumes "first_n_tokens ms n tc ap (Some b) sp = Inr out"
  shows "case b of
           OneStr s \<Rightarrow> out = [] \<or> msg_type (last out) = s
         | OneClass c \<Rightarrow> out = [] \<or> isinstance (last out) c
         | Several ts \<Rightarrow> True"
proof -
  from first_n_tokens_cases[OF assms] obtain ms' idx' j where
    h: "j \<le> idx'" "idx' \<le> length ms'" "out = take j ms'"
       "case Some b of
              Some (OneStr s) \<Rightarrow> j = 0 \<or> msg_type (ms' ! (j - 1)) = s
            | Some (OneClass c) \<Rightarrow> j = 0 \<or> isinstance (ms' ! (j - 1)) c
            | Some (Several ts) \<Rightarrow> j = idx'
            | None \<Rightarrow> j = idx'"
    by blast
  have l: "j \<noteq> 0 \<Longrightarrow> last out = ms' ! (j - 1)"
    using h(1,2,3) by (simp add: last_take_nth)
  show ?thesis
  proof (cases b)
    case (OneStr s)
    with h(3,4) l show ?thesis by (cases "j = 0") auto
  next
    case (OneClass c)
    with h(3,4) l show ?thesis by (cases "j = 0") auto
  next
    case (Several ts)
    then show ?thesis by simp
  qed
qed

lemma trim_first_end_on_single:
  assumes "trim_messages ms n counter ''first'' ap (Some b) None False = Inr out"
  shows "case b of
           OneStr s \<Rightarrow> out = [] \<or> msg_type (last out) = s
         | OneClass c \<Rightarrow> out = [] \<or> isinstance (last out) c
         | Several ts \<Rightarrow> True"
  using assms first_n_tokens_end_on by (simp add: trim_messages_def)

text \<open>
  C5, evaluated where the code departs from it: \<^verbatim>\<open>end_on=["human"]\<close>, a list as the
  declared type \<^verbatim>\<open>Sequence[Union[str, Type[BaseMessage]]]\<close> asks for. Neither
  \<^verbatim>\<open>isinstance(end_on, str)\<close> nor \<^verbatim>\<open>isinstance(end_on, type)\<close> holds, nothing is walked
  back, and the prefix returned ends on the AI message. For one string or one class the
  prefix is empty or ends on a matching message (\<open>trim_first_end_on_single\<close>).
\<close>

theorem trim_end_on_sequence_ignored:
  "trim_messages [message_of (Plain Human) (Str ''a''), message_of (Plain AI) (Str ''b'')] 5
     unit_cost ''first'' False (Some (Several [Inl ''human''])) None False
   = Inr [message_of (Plain Human) (Str ''a''), message_of (Plain AI) (Str ''b'')]
   \<and> msg_type (message_of (Plain AI) (Str ''b'')) = ''ai''"
  by (simp add: trim_messages_def first_n_tokens_def first_fit.simps unit_cost_def Let_def
      msg_type_def message_of_def)

lemma first_n_tokens_elems:
  assumes "first_n_tokens ms n tc ap eo sp = Inr out" and "m \<in> set out"
  shows "m \<in> set ms \<or> (\<exists>m0 bs. m0 \<in> set ms \<and> bs \<noteq> [] \<and> m = m0\<lparr>content := Blocks bs\<rparr>)"
proof -
  from first_n_tokens_cases[OF assms(1)] obtain ms' idx' j where
    h: "out = take j ms'"
       "(ms' = ms \<and> idx' = first_fit tc n ms 0) \<or>
            (ap \<and> first_fit tc n ms 0 < length ms \<and>
             (\<exists>bs. bs \<noteq> [] \<and>
                ms' = take (first_fit tc n ms 0) ms
                        @ [(ms ! first_fit tc n ms 0)\<lparr>content := Blocks bs\<rparr>]
                \<and> idx' = first_fit tc n ms 0 + 1 \<and> tc ms' \<le> n))"
    by blast
  from assms(2) h(1) have m: "m \<in> set ms'" by (auto dest: in_set_takeD)
  from h(2) show ?thesis
  proof
    assume "ms' = ms \<and> idx' = first_fit tc n ms 0"
    with m show ?thesis by simp
  next
    assume "ap \<and> first_fit tc n ms 0 < length ms \<and>
             (\<exists>bs. bs \<noteq> [] \<and>
                ms' = take (first_fit tc n ms 0) ms
                        @ [(ms ! first_fit tc n ms 0)\<lparr>content := Blocks bs\<rparr>]
                \<and> idx' = first_fit tc n ms 0 + 1 \<and> tc ms' \<le> n)"
    then obtain bs where b: "first_fit tc n ms 0 < length ms" "bs \<noteq> []"
      "ms' = take (first_fit tc n ms 0) ms @ [(ms ! first_fit tc n ms 0)\<lparr>content := Blocks bs\<rparr>]"
      by blast
    from m b(3) have "m \<in> set (take (first_fit tc n ms 0) ms)
        \<or> m = (ms ! first_fit tc n ms 0)\<lparr>content := Blocks bs\<rparr>" by auto
    then show ?thesis
    proof
      assume "m \<in> set (take (first_fit tc n ms 0) ms)"
      then show ?thesis by (auto dest: in_set_takeD)
    next
      assume "m = (ms ! first_fit tc n ms 0)\<lparr>content := Blocks bs\<rparr>"
      moreover have "ms ! first_fit tc n ms 0 \<in> set ms" using b(1) by simp
      ultimately show ?thesis using b(2) by blast
    qed
  qed
qed

lemma last_n_tokens_elems:
  assumes "last_n_tokens ms n tc ap ks so = Inr out" and "m \<in> set out"
  shows "m \<in> set ms \<or> (\<exists>m0 bs. m0 \<in> set ms \<and> bs \<noteq> [] \<and> m = m0\<lparr>content := Blocks bs\<rparr>)"
proof -
  from assms(1) obtain sw r where
    r: "first_n_tokens (if sw then take 1 ms @ slice_1_down ms else rev ms) n tc ap so None = Inr r"
       "out = (if sw then take 1 r @ slice_1_down r else rev r)"
    by (auto simp: last_n_tokens_def Let_def split: sum.splits if_splits list.splits)
  have "set out \<subseteq> set r"
    using r(2) by (auto simp: slice_1_down_def dest: in_set_takeD)
  with assms(2) have "m \<in> set r" by blast
  from first_n_tokens_elems[OF r(1) this]
  have "m \<in> set (if sw then take 1 ms @ slice_1_down ms else rev ms) \<or>
        (\<exists>m0 bs. m0 \<in> set (if sw then take 1 ms @ slice_1_down ms else rev ms) \<and> bs \<noteq> []
            \<and> m = m0\<lparr>content := Blocks bs\<rparr>)" .
  moreover have "set (if sw then take 1 ms @ slice_1_down ms else rev ms) \<subseteq> set ms"
    by (auto simp: slice_1_down_def dest: in_set_takeD)
  ultimately show ?thesis by blast
qed

lemma trim_messages_elems:
  assumes "trim_messages ms n counter strategy ap eo so ks = Inr out" and "m \<in> set out"
  shows "m \<in> set ms \<or> (\<exists>m0 bs. m0 \<in> set ms \<and> bs \<noteq> [] \<and> m = m0\<lparr>content := Blocks bs\<rparr>)"
proof -
  from assms(1) have
    "first_n_tokens ms n (list_token_counter counter) ap eo None = Inr out
     \<or> last_n_tokens ms n (list_token_counter counter) ap ks so = Inr out"
    by (auto simp: trim_messages_def split: if_splits)
  then show ?thesis
    using first_n_tokens_elems[OF _ assms(2)] last_n_tokens_elems[OF _ assms(2)] by blast
qed

lemma trim_two_blocks:
  "trim_messages
     [message_of (Plain Human) (Blocks [text_block ''aa'', text_block ''bb'']),
      message_of (Plain Human) (Str ''z'')] 2 char_cost ''first'' True None None False
   = Inr [message_of (Plain Human) (Blocks [text_block ''aa''])]"
  by (simp add: trim_messages_def first_n_tokens_def first_fit.simps char_cost_def Let_def
      message_of_def text_block_def partial_step_def)

lemma partial_step_two_blocks:
  "partial_step (list_token_counter char_cost) 2 default_text_splitter
     [message_of (Plain Human) (Blocks [text_block ''aa'', text_block ''bb'']),
      message_of (Plain Human) (Str ''z'')] 0
   = Inr ([message_of (Plain Human) (Blocks [text_block ''aa''])], 1)"
  by (simp add: char_cost_def Let_def message_of_def text_block_def partial_step_def)

text \<open>
  C9: a truncated boundary message never has an empty content list. The partial step of
  \<^verbatim>\<open>_first_n_tokens\<close> either leaves \<^verbatim>\<open>messages\<close> and \<^verbatim>\<open>idx\<close> as they are or appends to the
  prefix a copy of the boundary message whose content is a non-empty list of blocks: both
  truncation loops run \<^verbatim>\<open>range(1, n)\<close> and so leave at least one of the \<open>n\<close> blocks. Hence,
  whatever the options, when \<^verbatim>\<open>trim_messages\<close> is called with \<^verbatim>\<open>allow_partial\<close> set and
  returns, every message of the result is a message of the input or such a copy of one.
\<close>

theorem trim_partial_content_nonempty:
  "(partial_step tc n sp ms idx = Inr (ms', idx') \<longrightarrow>
      (ms' = ms \<and> idx' = idx) \<or>
      (\<exists>bs. bs \<noteq> [] \<and> ms' = take idx ms @ [(ms ! idx)\<lparr>content := Blocks bs\<rparr>]
            \<and> idx' = idx + 1))
   \<and> (trim_messages ms n counter strategy True eo so ks = Inr out \<and> m \<in> set out \<longrightarrow>
        m \<in> set ms \<or>
        (\<exists>m0 bs. m0 \<in> set ms \<and> bs \<noteq> [] \<and> m = m0\<lparr>content := Blocks bs\<rparr>))"
proof (intro conjI impI)
  assume "partial_step tc n sp ms idx = Inr (ms', idx')"
  from partial_step_cases[OF this]
  show "(ms' = ms \<and> idx' = idx) \<or>
      (\<exists>bs. bs \<noteq> [] \<and> ms' = take idx ms @ [(ms ! idx)\<lparr>content := Blocks bs\<rparr>]
            \<and> idx' = idx + 1)"
    by blast
next
  assume "trim_messages ms n counter strategy True eo so ks = Inr out \<and> m \<in> set out"
  then show "m \<in> set ms \<or>
        (\<exists>m0 bs. m0 \<in> set ms \<and> bs \<noteq> [] \<and> m = m0\<lparr>content := Blocks bs\<rparr>)"
    using trim_messages_elems by blast
qed

theorem trim_partial_content_nonempty_witness:
  "partial_step (list_token_counter char_cost) 2 default_text_splitter
     [message_of (Plain Human) (Blocks [text_block ''aa'', text_block ''bb'']),
      message_of (Plain Human) (Str ''z'')] 0
   = Inr ([message_of (Plain Human) (Blocks [text_block ''aa''])], 1)
   \<and> (\<exists>bs. bs \<noteq> [] \<and>
         [message_of (Plain Human) (Blocks [text_block ''aa''])]
         = take 0 [message_of (Plain Human) (Blocks [text_block ''aa'', text_block ''bb'']),
                   message_of (Plain Human) (Str ''z'')]
           @ [([message_of (Plain Human) (Blocks [text_block ''aa'', text_block ''bb'']),
                message_of (Plain Human) (Str ''z'')] ! 0)\<lparr>content := Blocks bs\<rparr>])
   \<and> trim_messages
       [message_of (Plain Human) (Blocks [text_block ''aa'', text_block ''bb'']),
        message_of (Plain Human) (Str ''z'')] 2 char_cost ''first'' True None None False
     = Inr [message_of (Plain Human) (Blocks [text_block ''aa''])]
   \<and> (\<exists>m0 bs. m0 \<in> set [message_of (Plain Human) (Blocks [text_block ''aa'', text_block ''bb'']),
                message_of (Plain Human) (Str ''z'')] \<and> bs \<noteq> []
         \<and> message_of (Plain Human) (Blocks [text_block ''aa'']) = m0\<lparr>content := Blocks bs\<rparr>)"
proof -
  let ?ms = "[message_of (Plain Human) (Blocks [text_block ''aa'', text_block ''bb'']),
              message_of (Plain Human) (Str ''z'')]"
  let ?e = "message_of (Plain Human) (Blocks [text_block ''aa''])"
  have n: "?e \<notin> set ?ms" "[?e] \<noteq> ?ms"
    by (simp_all add: message_of_def)
  note t = trim_partial_content_nonempty
    [of "list_token_counter char_cost" 2 default_text_splitter ?ms 0 "[?e]" 1
        char_cost "''first''" None None False "[?e]" ?e]
  from t partial_step_two_blocks trim_two_blocks n show ?thesis
    by simp
qed

lemma first_fit_spec_aux:
  assumes "i \<le> length ms"
    and "\<forall>j. length ms - i < j \<and> j \<le> length ms \<longrightarrow> \<not> tc (take j ms) \<le> n"
  shows "(first_fit tc n ms i = 0 \<or> tc (take (first_fit tc n ms i) ms) \<le> n)
         \<and> (\<forall>j. first_fit tc n ms i < j \<and> j \<le> length ms \<longrightarrow> \<not> tc (take j ms) \<le> n)"
  using assms
proof (induction tc n ms i rule: first_fit.induct)
  case (1 tc n ms i)
  have cand: "(if i \<noteq> 0 then take (length ms - i) ms else ms) = take (length ms - i) ms"
    by simp
  show ?case
  proof (cases "i < length ms")
    case True
    show ?thesis
    proof (cases "tc (take (length ms - i) ms) \<le> n")
      case fits: True
      with True cand have "first_fit tc n ms i = length ms - i"
        by (subst first_fit.simps) simp
      with fits "1.prems"(2) show ?thesis by simp
    next
      case nofit: False
      with True cand have eq: "first_fit tc n ms i = first_fit tc n ms (Suc i)"
        by (subst first_fit.simps) simp
      have p1: "Suc i \<le> length ms" using True by simp
      have p2: "\<forall>j. length ms - Suc i < j \<and> j \<le> length ms \<longrightarrow> \<not> tc (take j ms) \<le> n"
      proof (intro allI impI)
        fix j assume a: "length ms - Suc i < j \<and> j \<le> length ms"
        show "\<not> tc (take j ms) \<le> n"
        proof (cases "j = length ms - i")
          case True
          with nofit show ?thesis by simp
        next
          case False
          with a True have "length ms - i < j \<and> j \<le> length ms" by arith
          with "1.prems"(2) show ?thesis by blast
        qed
      qed
      from "1.IH"[OF True _ p1 p2] nofit cand eq show ?thesis by simp
    qed
  next
    case False
    then have z: "first_fit tc n ms i = 0" by (subst first_fit.simps) simp
    from False "1.prems"(1) have "i = length ms" by simp
    with "1.prems"(2) z show ?thesis by simp
  qed
qed

lemma first_fit_spec:
  "(first_fit tc n ms 0 = 0 \<or> tc (take (first_fit tc n ms 0) ms) \<le> n)
   \<and> (\<forall>j. first_fit tc n ms 0 < j \<and> j \<le> length ms \<longrightarrow> \<not> tc (take j ms) \<le> n)"
  by (rule first_fit_spec_aux) simp_all

lemma first_n_tokens_plain:
  "first_n_tokens ms n tc False None sp = Inr (take (first_fit tc n ms 0) ms)"
  by (simp add: first_n_tokens_def Let_def)

lemma trim_first_plain:
  "trim_messages ms n counter ''first'' False None None False
   = Inr (take (first_fit (list_token_counter counter) n ms 0) ms)"
  by (simp add: trim_messages_def first_n_tokens_plain)

lemma unit_cost_length: "list_token_counter unit_cost xs = int (length xs)"
  by (induction xs) (simp_all add: unit_cost_def)

text \<open>
  C2, as the code has it: with strategy \<^verbatim>\<open>"first"\<close>, \<^verbatim>\<open>allow_partial\<close> unset and no
  \<^verbatim>\<open>end_on\<close>, \<^verbatim>\<open>trim_messages\<close> returns \<^verbatim>\<open>messages[0:k]\<close>, where \<open>k\<close> is the largest index
  from \<open>1\<close> to the length whose prefix the counter puts within the budget, and \<open>k = 0\<close> when
  there is none. The empty prefix is returned without being counted.
\<close>

theorem trim_first_longest_fitting_prefix:
  "\<exists>k\<le>length ms.
     trim_messages ms n counter ''first'' False None None False = Inr (take k ms)
     \<and> (k = 0 \<or> list_token_counter counter (take k ms) \<le> n)
     \<and> (\<forall>j. k < j \<and> j \<le> length ms \<longrightarrow> \<not> list_token_counter counter (take j ms) \<le> n)"
  using first_fit_spec[of "list_token_counter counter" n ms]
    first_fit_le[of "list_token_counter counter" n ms 0] trim_first_plain[of ms n counter]
  by blast

theorem trim_first_longest_fitting_prefix_witness:
  "trim_messages
     [message_of (Plain Human) (Str ''a''), message_of (Plain Human) (Str ''b''),
      message_of (Plain Human) (Str ''c''), message_of (Plain Human) (Str ''d'')]
     2 unit_cost ''first'' False None None False
   = Inr [message_of (Plain Human) (Str ''a''), message_of (Plain Human) (Str ''b'')]"
proof -
  let ?ms = "[message_of (Plain Human) (Str ''a''), message_of (Plain Human) (Str ''b''),
      message_of (Plain Human) (Str ''c''), message_of (Plain Human) (Str ''d'')]"
  from trim_first_longest_fitting_prefix[of ?ms 2 unit_cost] obtain k where
    k: "k \<le> length ?ms"
       "trim_messages ?ms 2 unit_cost ''first'' False None None False = Inr (take k ?ms)"
       "k = 0 \<or> list_token_counter unit_cost (take k ?ms) \<le> 2"
       "\<forall>j. k < j \<and> j \<le> length ?ms \<longrightarrow> \<not> list_token_counter unit_cost (take j ?ms) \<le> 2"
    by blast
  have cost: "\<And>j. j \<le> 4 \<Longrightarrow> list_token_counter unit_cost (take j ?ms) = int j"
    by (simp add: unit_cost_length)
  from k(1) k(3) cost[of k] have "k \<le> 2" by auto
  moreover from k(4) cost[of 2] have "\<not> k < 2" by auto
  ultimately have "k = 2" by simp
  with k(2) show ?thesis by (simp add: numeral_2_eq_2)
qed

text \<open>
  With a counter that charges the empty list more than the budget no prefix at all is
  within the budget, and the empty prefix is returned all the same: \<open>k\<close> is then not an
  index whose prefix fits.
\<close>

theorem trim_first_empty_prefix_not_counted:
  "trim_messages [message_of (Plain Human) (Str ''hi'')] 2 overhead_cost ''first'' False None None False
     = Inr []
   \<and> \<not> list_token_counter overhead_cost (take 0 [message_of (Plain Human) (Str ''hi'')]) \<le> 2
   \<and> \<not> list_token_counter overhead_cost (take 1 [message_of (Plain Human) (Str ''hi'')]) \<le> 2"
  by (simp add: trim_first_plain first_fit.simps overhead_cost_def)

text \<open>
  When the counter puts the empty list within the budget, \<open>k\<close> is the largest index from
  \<open>0\<close> to the length whose prefix fits.
\<close>

lemma trim_first_largest_index_if_empty_fits:
  assumes "list_token_counter counter [] \<le> n"
  shows "\<exists>k\<le>length ms.
     trim_messages ms n counter ''first'' False None None False = Inr (take k ms)
     \<and> list_token_counter counter (take k ms) \<le> n
     \<and> (\<forall>j. k < j \<and> j \<le> length ms \<longrightarrow> \<not> list_token_counter counter (take j ms) \<le> n)"
proof -
  from first_fit_spec[of "list_token_counter counter" n ms]
    first_fit_le[of "list_token_counter counter" n ms 0] trim_first_plain[of ms n counter]
  obtain k where k: "k \<le> length ms"
     "trim_messages ms n counter ''first'' False None None False = Inr (take k ms)"
     "k = 0 \<or> list_token_counter counter (take k ms) \<le> n"
     "\<forall>j. k < j \<and> j \<le> length ms \<longrightarrow> \<not> list_token_counter counter (take j ms) \<le> n"
    by blast
  from k(3) assms have "list_token_counter counter (take k ms) \<le> n" by auto
  with k show ?thesis by blast
qed

lemma first_fit_pos_iff:
  "0 < first_fit tc n ms 0 \<longleftrightarrow> (\<exists>k. 0 < k \<and> k \<le> length ms \<and> tc (take k ms) \<le> n)"
proof
  assume p: "0 < first_fit tc n ms 0"
  with first_fit_spec[of tc n ms] have "tc (take (first_fit tc n ms 0) ms) \<le> n" by simp
  with p first_fit_le[of tc n ms 0] show "\<exists>k. 0 < k \<and> k \<le> length ms \<and> tc (take k ms) \<le> n"
    by blast
next
  assume "\<exists>k. 0 < k \<and> k \<le> length ms \<and> tc (take k ms) \<le> n"
  then obtain k where k: "0 < k" "k \<le> length ms" "tc (take k ms) \<le> n" by blast
  show "0 < first_fit tc n ms 0"
  proof (rule ccontr)
    assume "\<not> 0 < first_fit tc n ms 0"
    then have "first_fit tc n ms 0 < k" using k(1) by simp
    with first_fit_spec[of tc n ms] k(2,3) show False by blast
  qed
qed

lemma first_n_tokens_unsplit:
  assumes "ms \<noteq> []"
  shows "\<exists>j\<le>first_fit tc n ms 0.
           first_n_tokens ms n tc False eo sp = Inr (take j ms)
           \<and> (eo = None \<longrightarrow> j = first_fit tc n ms 0)"
proof -
  let ?idx = "first_fit tc n ms 0"
  have le: "?idx \<le> length ms" by (rule first_fit_le)
  have wb: "\<And>p. \<exists>j. walk_back p ms ?idx = Inr j \<and> j \<le> ?idx"
    using walk_back_ok[OF assms le] by blast
  show ?thesis
  proof (cases eo)
    case None
    then show ?thesis by (simp add: first_n_tokens_def Let_def)
  next
    case (Some b)
    show ?thesis
    proof (cases b)
      case (OneStr s)
      from wb[of "\<lambda>m. msg_type m = s"] obtain j where
        "walk_back (\<lambda>m. msg_type m = s) ms ?idx = Inr j" "j \<le> ?idx" by blast
      with Some OneStr show ?thesis
        by (intro exI[of _ j]) (simp add: first_n_tokens_def Let_def)
    next
      case (OneClass c)
      from wb[of "\<lambda>m. isinstance m c"] obtain j where
        "walk_back (\<lambda>m. isinstance m c) ms ?idx = Inr j" "j \<le> ?idx" by blast
      with Some OneClass show ?thesis
        by (intro exI[of _ j]) (simp add: first_n_tokens_def Let_def)
    next
      case (Several ts)
      with Some show ?thesis
        by (intro exI[of _ ?idx]) (simp add: first_n_tokens_def Let_def)
    qed
  qed
qed

text \<open>
  C1, as far as the code keeps it: with strategy \<^verbatim>\<open>"last"\<close>, \<^verbatim>\<open>keep_system\<close> set and
  \<^verbatim>\<open>allow_partial\<close> unset, on a list whose first message is a system message,
  \<^verbatim>\<open>trim_messages\<close> returns, whatever \<^verbatim>\<open>start_on\<close> is, and the result is empty or begins
  with that system message; all its messages are messages of the input. The system
  message is the first element of the list that is searched and counts against the
  budget: the result is non-empty only if some non-empty prefix of the searched list is
  within the budget, and, when there is no \<^verbatim>\<open>start_on\<close>, whenever one is.
\<close>

theorem trim_last_keep_system_head:
  assumes "isinstance m0 (Plain System)"
  shows "\<exists>out. trim_messages (m0 # rest) n counter ''last'' False None so True = Inr out
           \<and> (out = [] \<or> hd out = m0) \<and> set out \<subseteq> set (m0 # rest)
           \<and> (out \<noteq> [] \<longrightarrow>
                (\<exists>k. 0 < k \<and> k \<le> length (take 1 (m0 # rest) @ slice_1_down (m0 # rest))
                    \<and> list_token_counter counter
                         (take k (take 1 (m0 # rest) @ slice_1_down (m0 # rest))) \<le> n))
           \<and> (so = None
                \<and> (\<exists>k. 0 < k \<and> k \<le> length (take 1 (m0 # rest) @ slice_1_down (m0 # rest))
                    \<and> list_token_counter counter
                         (take k (take 1 (m0 # rest) @ slice_1_down (m0 # rest))) \<le> n)
                \<longrightarrow> out \<noteq> [])"
proof -
  let ?tc = "list_token_counter counter"
  let ?S = "take 1 (m0 # rest) @ slice_1_down (m0 # rest)"
  let ?idx = "first_fit ?tc n ?S 0"
  have S: "?S = m0 # slice_1_down (m0 # rest)" by simp
  have ne: "?S \<noteq> []" by simp
  from first_n_tokens_unsplit[OF ne, of ?tc n so None] obtain j where
    j: "j \<le> ?idx" "first_n_tokens ?S n ?tc False so None = Inr (take j ?S)"
       "so = None \<longrightarrow> j = ?idx"
    by blast
  let ?r = "take j ?S"
  let ?out = "take 1 ?r @ slice_1_down ?r"
  have t: "trim_messages (m0 # rest) n counter ''last'' False None so True = Inr ?out"
    using assms j(2) by (simp add: trim_messages_def last_n_tokens_def Let_def)
  have h: "?out = [] \<or> hd ?out = m0"
    by (cases j) (simp_all add: slice_1_down_def)
  have "set ?S \<subseteq> set (m0 # rest)"
    by (auto simp: slice_1_down_def dest: in_set_takeD)
  moreover have "set ?out \<subseteq> set ?S"
    by (auto simp: slice_1_down_def dest!: in_set_takeD)
  ultimately have sub: "set ?out \<subseteq> set (m0 # rest)" by blast
  have pos: "?out \<noteq> [] \<longleftrightarrow> 0 < j"
    by (cases j) (simp_all add: slice_1_down_def)
  have b1: "?out \<noteq> [] \<longrightarrow> (\<exists>k. 0 < k \<and> k \<le> length ?S \<and> ?tc (take k ?S) \<le> n)"
  proof
    assume "?out \<noteq> []"
    with pos j(1) have "0 < ?idx" by simp
    then show "\<exists>k. 0 < k \<and> k \<le> length ?S \<and> ?tc (take k ?S) \<le> n"
      by (simp only: first_fit_pos_iff)
  qed
  have b2: "so = None \<and> (\<exists>k. 0 < k \<and> k \<le> length ?S \<and> ?tc (take k ?S) \<le> n) \<longrightarrow> ?out \<noteq> []"
  proof
    assume a: "so = None \<and> (\<exists>k. 0 < k \<and> k \<le> length ?S \<and> ?tc (take k ?S) \<le> n)"
    then have "0 < ?idx" by (simp only: first_fit_pos_iff)
    with a j(3) have "0 < j" by simp
    with pos show "?out \<noteq> []" by simp
  qed
  from t h sub b1 b2 show ?thesis by blast
qed

theorem trim_last_keep_system_head_witness:
  "isinstance (message_of (Plain System) (Str ''s'')) (Plain System)
   \<and> (\<exists>out. trim_messages
         [message_of (Plain System) (Str ''s''), message_of (Plain Human) (Str ''a''),
          message_of (Plain Human) (Str ''b''), message_of (Plain Human) (Str ''c'')]
         2 unit_cost ''last'' False None None True = Inr out
        \<and> out \<noteq> [] \<and> hd out = message_of (Plain System) (Str ''s'')
        \<and> set out \<subseteq> set [message_of (Plain System) (Str ''s''), message_of (Plain Human) (Str ''a''),
          message_of (Plain Human) (Str ''b''), message_of (Plain Human) (Str ''c'')])"
proof -
  let ?s = "message_of (Plain System) (Str ''s'')"
  let ?rest = "[message_of (Plain Human) (Str ''a''), message_of (Plain Human) (Str ''b''),
                message_of (Plain Human) (Str ''c'')]"
  let ?S = "take 1 (?s # ?rest) @ slice_1_down (?s # ?rest)"
  have i: "isinstance ?s (Plain System)"
    by (simp add: isinstance_def message_of_def)
  have "0 < (1::nat) \<and> 1 \<le> length ?S \<and> list_token_counter unit_cost (take 1 ?S) \<le> 2"
    by (simp add: unit_cost_def)
  then have fit: "\<exists>k. 0 < k \<and> k \<le> length ?S \<and> list_token_counter unit_cost (take k ?S) \<le> 2"
    by blast
  from trim_last_keep_system_head[OF i, of ?rest 2 unit_cost None] obtain out where
    o: "trim_messages (?s # ?rest) 2 unit_cost ''last'' False None None True = Inr out"
       "out = [] \<or> hd out = ?s" "set out \<subseteq> set (?s # ?rest)"
       "None = (None :: boundary option)
          \<and> (\<exists>k. 0 < k \<and> k \<le> length ?S \<and> list_token_counter unit_cost (take k ?S) \<le> 2)
        \<longrightarrow> out \<noteq> []"
    by blast
  from o(4) fit have "out \<noteq> []" by blast
  with o(1,2,3) i show ?thesis by blast
qed

text \<open>
  On the list of the specification's example, with unit costs and a budget of 0, no
  non-empty prefix fits and the result is empty: the system message is not kept.
\<close>

theorem trim_last_keep_system_budget_zero:
  "trim_messages
     [message_of (Plain System) (Str ''s''), message_of (Plain Human) (Str ''a''),
      message_of (Plain Human) (Str ''b''), message_of (Plain Human) (Str ''c'')]
     0 unit_cost ''last'' False None None True
   = Inr []"
  by code_simp

lemma first_n_tokens_contiguous:
  assumes "first_n_tokens ms n tc ap eo sp = Inr out"
  shows "\<exists>j\<le>length ms. out = take j ms \<or>
           (j < length ms \<and> (\<exists>bs. bs \<noteq> [] \<and> out = take j ms @ [(ms ! j)\<lparr>content := Blocks bs\<rparr>]))"
proof -
  let ?idx = "first_fit tc n ms 0"
  from first_n_tokens_cases[OF assms] obtain ms' idx' j where
    h: "j \<le> idx'" "idx' \<le> length ms'" "out = take j ms'"
       "(ms' = ms \<and> idx' = ?idx) \<or>
            (ap \<and> ?idx < length ms \<and>
             (\<exists>bs. bs \<noteq> [] \<and> ms' = take ?idx ms @ [(ms ! ?idx)\<lparr>content := Blocks bs\<rparr>]
                \<and> idx' = ?idx + 1 \<and> tc ms' \<le> n))"
    by blast
  from h(4) show ?thesis
  proof
    assume "ms' = ms \<and> idx' = ?idx"
    with h(1,2,3) show ?thesis by (intro exI[of _ j]) simp
  next
    assume "ap \<and> ?idx < length ms \<and>
             (\<exists>bs. bs \<noteq> [] \<and> ms' = take ?idx ms @ [(ms ! ?idx)\<lparr>content := Blocks bs\<rparr>]
                \<and> idx' = ?idx + 1 \<and> tc ms' \<le> n)"
    then obtain bs where b: "?idx < length ms" "bs \<noteq> []"
      "ms' = take ?idx ms @ [(ms ! ?idx)\<lparr>content := Blocks bs\<rparr>]" "idx' = ?idx + 1"
      by blast
    show ?thesis
    proof (cases "j \<le> ?idx")
      case True
      with b(1,3) h(3) have "out = take j ms" by (simp add: min_def)
      moreover from True b(1) have "j \<le> length ms" by simp
      ultimately show ?thesis by blast
    next
      case False
      with h(1) b(4) have "j = ?idx + 1" by simp
      with b(1,3) h(3) have "out = take ?idx ms @ [(ms ! ?idx)\<lparr>content := Blocks bs\<rparr>]"
        by simp
      with b(1,2) show ?thesis by (intro exI[of _ ?idx]) auto
    qed
  qed
qed

text \<open>
  Without \<^verbatim>\<open>keep_system\<close> the result of \<^verbatim>\<open>trim_messages\<close> is a prefix of the input (strategy
  \<^verbatim>\<open>"first"\<close>) or a suffix of it (strategy \<^verbatim>\<open>"last"\<close>), possibly with one more message
  at the cut: a copy of the neighbouring message of the input with a non-empty list of
  blocks as content.
\<close>

lemma trim_without_keep_system_contiguous:
  assumes "trim_messages ms n counter strategy ap eo so False = Inr out"
  shows "\<exists>j\<le>length ms.
           out = take j ms
           \<or> (j < length ms \<and>
              (\<exists>bs. bs \<noteq> [] \<and> out = take j ms @ [(ms ! j)\<lparr>content := Blocks bs\<rparr>]))
           \<or> out = drop j ms
           \<or> (0 < j \<and>
              (\<exists>bs. bs \<noteq> [] \<and> out = (ms ! (j - 1))\<lparr>content := Blocks bs\<rparr> # drop j ms))"
proof -
  let ?tc = "list_token_counter counter"
  from assms have
    "first_n_tokens ms n ?tc ap eo None = Inr out \<or> last_n_tokens ms n ?tc ap False so = Inr out"
    by (auto simp: trim_messages_def split: if_splits)
  then show ?thesis
  proof
    assume "first_n_tokens ms n ?tc ap eo None = Inr out"
    from first_n_tokens_contiguous[OF this] show ?thesis by blast
  next
    assume "last_n_tokens ms n ?tc ap False so = Inr out"
    then obtain r where r: "first_n_tokens (rev ms) n ?tc ap so None = Inr r" "out = rev r"
      by (auto simp: last_n_tokens_def Let_def split: sum.splits)
    from first_n_tokens_contiguous[OF r(1)] obtain i where i: "i \<le> length ms"
      "r = take i (rev ms) \<or>
       (i < length ms \<and>
        (\<exists>bs. bs \<noteq> [] \<and> r = take i (rev ms) @ [(rev ms ! i)\<lparr>content := Blocks bs\<rparr>]))"
      by auto
    have rt: "rev (take i (rev ms)) = drop (length ms - i) ms"
      by (simp add: rev_take)
    from i(2) show ?thesis
    proof
      assume "r = take i (rev ms)"
      with r(2) rt have "out = drop (length ms - i) ms" by simp
      then show ?thesis by (intro exI[of _ "length ms - i"]) simp
    next
      assume "i < length ms \<and>
        (\<exists>bs. bs \<noteq> [] \<and> r = take i (rev ms) @ [(rev ms ! i)\<lparr>content := Blocks bs\<rparr>])"
      then obtain bs where b: "i < length ms" "bs \<noteq> []"
        "r = take i (rev ms) @ [(rev ms ! i)\<lparr>content := Blocks bs\<rparr>]" by blast
      have "rev ms ! i = ms ! (length ms - i - 1)"
        using b(1) by (simp add: rev_nth)
      with b(3) r(2) rt have
        "out = (ms ! (length ms - i - 1))\<lparr>content := Blocks bs\<rparr> # drop (length ms - i) ms"
        by simp
      with b(1,2) show ?thesis by (intro exI[of _ "length ms - i"]) auto
    qed
  qed
qed

text \<open>
  C3, evaluated where the code departs from it: a system message and two human messages,
  a budget that admits all three, strategy \<^verbatim>\<open>"last"\<close> and \<^verbatim>\<open>keep_system\<close> set. The slices
  \<^verbatim>\<open>messages[1::-1]\<close> and \<^verbatim>\<open>reversed_[1::-1]\<close> take the first two messages in reverse, not
  the rest of the list in reverse: the result repeats the system message and loses the
  last message. Without \<^verbatim>\<open>keep_system\<close> the result is a prefix or a suffix of the input
  with at most the message at the cut rewritten (\<open>trim_without_keep_system_contiguous\<close>).
\<close>

theorem trim_last_keep_system_duplicates:
  "trim_messages
     [message_of (Plain System) (Str ''s''), message_of (Plain Human) (Str ''a''),
      message_of (Plain Human) (Str ''b'')]
     3 unit_cost ''last'' False None None True
   = Inr [message_of (Plain System) (Str ''s''), message_of (Plain Human) (Str ''a''),
          message_of (Plain System) (Str ''s'')]"
  by code_simp

text \<open>
  The same slices decide the specification's example, a system message and three human
  messages with a budget of 2: the result is the system message, the first human message
  and the system message again.
\<close>

lemma trim_last_keep_system_spec_example:
  "trim_messages
     [message_of (Plain System) (Str ''s''), message_of (Plain Human) (Str ''a''),
      message_of (Plain Human) (Str ''b''), message_of (Plain Human) (Str ''c'')]
     2 unit_cost ''last'' False None None True
   = Inr [message_of (Plain System) (Str ''s''), message_of (Plain Human) (Str ''a''),
          message_of (Plain System) (Str ''s'')]"
  by code_simp

lemma split_on_no_sep: "c \<notin> set t \<Longrightarrow> split_on c t = [t]"
  by (induction t) auto

lemma first_n_tokens_partial:
  "first_n_tokens ms n tc True None None =
     (case (if int (first_fit tc n ms 0) < int (length ms) - 1
            then partial_step tc n default_text_splitter ms (first_fit tc n ms 0)
            else Inr (ms, first_fit tc n ms 0)) of
        Inl e \<Rightarrow> Inl e
      | Inr (ms', idx') \<Rightarrow> Inr (take idx' ms'))"
  by (auto simp: first_n_tokens_def Let_def split: sum.splits)

lemma partial_step_blocks_fit:
  assumes "idx < length ms" and "content (ms ! idx) = Blocks bs"
    and "0 < j" and "j < length bs"
    and "tc (take idx ms @ [(ms ! idx)\<lparr>content := Blocks (take j bs)\<rparr>]) \<le> n"
    and "\<forall>j'. j < j' \<and> j' < length bs \<longrightarrow>
           \<not> tc (take idx ms @ [(ms ! idx)\<lparr>content := Blocks (take j' bs)\<rparr>]) \<le> n"
  shows "partial_step tc n sp ms idx =
           Inr (take idx ms @ [(ms ! idx)\<lparr>content := Blocks (take j bs)\<rparr>], idx + 1)"
proof -
  have k: "length bs - (length bs - 1) \<le> j" using assms(3) by simp
  have "drop_loop tc n (take idx ms) (ms ! idx) bs (length bs - 1)
        = Some ((ms ! idx)\<lparr>content := Blocks (take j bs)\<rparr>)"
    by (rule drop_loop_fits[OF k assms(4) assms(5) assms(6) assms(3)])
  with assms(1,2) show ?thesis by (simp add: partial_step_def Let_def)
qed

lemma partial_step_single_text_block:
  assumes "idx < length ms" and "content (ms ! idx) = Blocks [text_block t]"
    and "CHR 0x0A \<notin> set t"
  shows "partial_step tc n default_text_splitter ms idx = Inr (ms, idx)"
  using assms
  by (simp add: partial_step_def Let_def text_block_def default_text_splitter_def
      split_on_no_sep)


text \<open>
  C4, as the code has it, for strategy \<^verbatim>\<open>"first"\<close> with \<^verbatim>\<open>allow_partial\<close> set and no
  \<^verbatim>\<open>end_on\<close>; \<open>pre\<close> is the prefix selected without \<^verbatim>\<open>allow_partial\<close>. When the prefix
  leaves at least two messages out and the first of them has a list of blocks as content,
  the copies of it that keep the leading \<open>length bs - 1\<close>, ..., \<open>1\<close> blocks are tested
  in this order, and the first one that fits together with the prefix is appended: the
  result is the prefix followed by the copy with the largest such number \<open>j\<close> of blocks.
  When the content of the first message left out is a single text block without a line
  break, nothing can be dropped and nothing is appended.
\<close>

theorem trim_first_partial_blocks:
  "(trim_messages ms n counter ''first'' False None None False = Inr pre
      \<and> length pre + 1 < length ms
      \<and> content (ms ! length pre) = Blocks bs \<and> 0 < j \<and> j < length bs
      \<and> list_token_counter counter (pre @ [(ms ! length pre)\<lparr>content := Blocks (take j bs)\<rparr>]) \<le> n
      \<and> (\<forall>j'. j < j' \<and> j' < length bs \<longrightarrow>
            \<not> list_token_counter counter
                 (pre @ [(ms ! length pre)\<lparr>content := Blocks (take j' bs)\<rparr>]) \<le> n)
      \<longrightarrow> trim_messages ms n counter ''first'' True None None False
            = Inr (pre @ [(ms ! length pre)\<lparr>content := Blocks (take j bs)\<rparr>]))
   \<and> (trim_messages ms n counter ''first'' False None None False = Inr pre
      \<and> content (ms ! length pre) = Blocks [text_block t] \<and> CHR 0x0A \<notin> set t
      \<longrightarrow> trim_messages ms n counter ''first'' True None None False = Inr pre)"
proof (intro conjI impI)
  let ?tc = "list_token_counter counter"
  let ?idx = "first_fit ?tc n ms 0"
  assume a: "trim_messages ms n counter ''first'' False None None False = Inr pre
      \<and> length pre + 1 < length ms
      \<and> content (ms ! length pre) = Blocks bs \<and> 0 < j \<and> j < length bs
      \<and> ?tc (pre @ [(ms ! length pre)\<lparr>content := Blocks (take j bs)\<rparr>]) \<le> n
      \<and> (\<forall>j'. j < j' \<and> j' < length bs \<longrightarrow>
            \<not> ?tc (pre @ [(ms ! length pre)\<lparr>content := Blocks (take j' bs)\<rparr>]) \<le> n)"
  then have pre: "pre = take ?idx ms" by (simp add: trim_first_plain)
  have le: "?idx \<le> length ms" by (rule first_fit_le)
  with pre have len: "length pre = ?idx" by simp
  from a len have guard: "int ?idx < int (length ms) - 1" and lt: "?idx < length ms" by auto
  have c: "content (ms ! ?idx) = Blocks bs" "0 < j" "j < length bs"
    using a len by simp_all
  have f: "?tc (take ?idx ms @ [(ms ! ?idx)\<lparr>content := Blocks (take j bs)\<rparr>]) \<le> n"
    using a len pre by simp
  have m: "\<forall>j'. j < j' \<and> j' < length bs \<longrightarrow>
           \<not> ?tc (take ?idx ms @ [(ms ! ?idx)\<lparr>content := Blocks (take j' bs)\<rparr>]) \<le> n"
    using a len pre by simp
  have "partial_step ?tc n default_text_splitter ms ?idx =
           Inr (take ?idx ms @ [(ms ! ?idx)\<lparr>content := Blocks (take j bs)\<rparr>], ?idx + 1)"
    by (rule partial_step_blocks_fit[OF lt c f m])
  with guard show "trim_messages ms n counter ''first'' True None None False
            = Inr (pre @ [(ms ! length pre)\<lparr>content := Blocks (take j bs)\<rparr>])"
    by (simp add: trim_messages_def first_n_tokens_partial len pre[symmetric])
next
  let ?tc = "list_token_counter counter"
  let ?idx = "first_fit ?tc n ms 0"
  assume a: "trim_messages ms n counter ''first'' False None None False = Inr pre
      \<and> content (ms ! length pre) = Blocks [text_block t] \<and> CHR 0x0A \<notin> set t"
  then have pre: "pre = take ?idx ms" by (simp add: trim_first_plain)
  have le: "?idx \<le> length ms" by (rule first_fit_le)
  with pre have len: "length pre = ?idx" by simp
  show "trim_messages ms n counter ''first'' True None None False = Inr pre"
  proof (cases "int ?idx < int (length ms) - 1")
    case True
    then have lt: "?idx < length ms" by simp
    from a len have "content (ms ! ?idx) = Blocks [text_block t]" "CHR 0x0A \<notin> set t" by simp_all
    from partial_step_single_text_block[OF lt this, of ?tc n] True pre show ?thesis
      by (simp add: trim_messages_def first_n_tokens_partial)
  next
    case False
    with pre show ?thesis by (simp add: trim_messages_def first_n_tokens_partial)
  qed
qed


lemma trim_two_blocks_unsplit:
  "trim_messages
     [message_of (Plain Human) (Blocks [text_block ''aa'', text_block ''bb'']),
      message_of (Plain Human) (Str ''z'')] 2 char_cost ''first'' False None None False
   = Inr []"
  by code_simp

lemma trim_one_block_unsplit:
  "trim_messages [message_of (Plain Human) (Blocks [text_block ''aaaa''])] 2 char_cost
     ''first'' False None None False
   = Inr []"
  by code_simp

theorem trim_first_partial_blocks_witness:
  "trim_messages
     [message_of (Plain Human) (Blocks [text_block ''aa'', text_block ''bb'']),
      message_of (Plain Human) (Str ''z'')] 2 char_cost ''first'' False None None False
   = Inr []
   \<and> trim_messages
     [message_of (Plain Human) (Blocks [text_block ''aa'', text_block ''bb'']),
      message_of (Plain Human) (Str ''z'')] 2 char_cost ''first'' True None None False
   = Inr [message_of (Plain Human) (Blocks [text_block ''aa''])]
   \<and> trim_messages [message_of (Plain Human) (Blocks [text_block ''aaaa''])] 2 char_cost
     ''first'' False None None False
   = Inr []
   \<and> trim_messages [message_of (Plain Human) (Blocks [text_block ''aaaa''])] 2 char_cost
     ''first'' True None None False
   = Inr []"
proof -
  let ?m = "message_of (Plain Human) (Blocks [text_block ''aa'', text_block ''bb''])"
  let ?ms1 = "[?m, message_of (Plain Human) (Str ''z'')]"
  let ?bs = "[text_block ''aa'', text_block ''bb'']"
  let ?ms2 = "[message_of (Plain Human) (Blocks [text_block ''aaaa''])]"
  have fits: "list_token_counter char_cost
                ([] @ [(?ms1 ! length ([] :: message list))\<lparr>content := Blocks (take 1 ?bs)\<rparr>]) \<le> 2"
    by (simp add: char_cost_def message_of_def text_block_def)
  have larger: "\<forall>j'. 1 < j' \<and> j' < length ?bs \<longrightarrow>
      \<not> list_token_counter char_cost
           ([] @ [(?ms1 ! length ([] :: message list))\<lparr>content := Blocks (take j' ?bs)\<rparr>]) \<le> 2"
    by simp
  have c1: "content (?ms1 ! length ([] :: message list)) = Blocks ?bs"
    by (simp add: message_of_def)
  have c2: "content (?ms2 ! length ([] :: message list)) = Blocks [text_block ''aaaa'']"
    by (simp add: message_of_def)
  have nl: "CHR 0x0A \<notin> set ''aaaa''" by simp
  have e: "[] @ [(?ms1 ! length ([] :: message list))\<lparr>content := Blocks (take 1 ?bs)\<rparr>]
           = [message_of (Plain Human) (Blocks [text_block ''aa''])]"
    by (simp add: message_of_def)
  from trim_first_partial_blocks[of ?ms1 2 char_cost "[]" ?bs 1]
       trim_two_blocks_unsplit fits larger c1
  have a: "trim_messages ?ms1 2 char_cost ''first'' True None None False
           = Inr ([] @ [(?ms1 ! length ([] :: message list))\<lparr>content := Blocks (take 1 ?bs)\<rparr>])"
    by simp
  from trim_first_partial_blocks[of ?ms2 2 char_cost "[]" _ _ "''aaaa''"]
       trim_one_block_unsplit c2 nl
  have b: "trim_messages ?ms2 2 char_cost ''first'' True None None False = Inr []"
    by blast
  from a e b trim_two_blocks_unsplit trim_one_block_unsplit show ?thesis by simp
qed

text \<open>
  On a single message over the budget nothing is appended: neither for the content of the
  claim, one text block \<^verbatim>\<open>"aaaa"\<close>, nor for two text blocks of which the first alone would
  fit, since \<^verbatim>\<open>idx < len(messages) - 1\<close> is false when only one message is left out.
\<close>

theorem trim_partial_single_message_empty:
  "trim_messages [message_of (Plain Human) (Blocks [text_block ''aaaa''])] 2 char_cost
     ''first'' True None None False
   = Inr []
   \<and> \<not> list_token_counter char_cost [message_of (Plain Human) (Blocks [text_block ''aaaa''])] \<le> 2
   \<and> trim_messages [message_of (Plain Human) (Blocks [text_block ''aa'', text_block ''bb''])] 2
       char_cost ''first'' True None None False
   = Inr []
   \<and> list_token_counter char_cost [message_of (Plain Human) (Blocks [text_block ''aa''])] \<le> 2"
  by code_simp

section \<open>Facts about merge_message_runs\<close>

lemma isinstance_own_plain: "isinstance a (Plain (variant_of (cls a)))"
  by (cases "cls a") (simp_all add: isinstance_def)

lemma isinstance_plain_iff: "cls m = Plain v \<Longrightarrow> isinstance m c \<longleftrightarrow> c = Plain v"
  by (simp add: isinstance_def)

lemma settled_snoc:
  "settled (xs @ [a]) \<Longrightarrow> \<not> isinstance b (cls a) \<Longrightarrow> settled (xs @ [a, b])"
  by (induction xs rule: settled.induct) auto

lemma settled_replace_last:
  "settled (xs @ [a]) \<Longrightarrow> cls m = Plain (variant_of (cls a)) \<Longrightarrow> settled (xs @ [m])"
proof (induction xs rule: settled.induct)
  case 1
  then show ?case by simp
next
  case (2 p)
  from 2 have "\<not> isinstance a (cls p)" by simp
  with isinstance_own_plain[of a] have "cls p \<noteq> Plain (variant_of (cls a))" by auto
  with 2 show ?case by (simp add: isinstance_plain_iff)
next
  case (3 p q ms)
  then show ?case by simp
qed

lemma settled_adjacent:
  "settled (xs @ a # b # ys) \<Longrightarrow> \<not> isinstance b (cls a)"
  by (induction xs rule: settled.induct) auto

lemma merged_class:
  assumes "chunk_add add_fields (msg_to_chunk a) (msg_to_chunk b) = Inr c"
    and "chunk_to_msg c = Inr m"
  shows "cls m = Plain (variant_of (cls a))"
proof -
  from assms(1) have "cls c = Chunk (variant_of (cls a))"
    by (auto simp: chunk_add_def msg_to_chunk_def split: sum.splits)
  with assms(2) show ?thesis by auto
qed

lemma merge_loop_settled:
  "merge_loop add_fields merged rest = Inr out \<Longrightarrow> merged \<noteq> [] \<Longrightarrow> settled merged \<Longrightarrow>
   settled out \<and> out \<noteq> []"
proof (induction rest arbitrary: merged)
  case Nil
  then show ?case by simp
next
  case (Cons cur rest)
  from Cons.prems(2) have m: "merged = butlast merged @ [last merged]" by simp
  with Cons.prems(3) have s: "settled (butlast merged @ [last merged])" by simp
  show ?case
  proof (cases "isinstance cur (cls (last merged))")
    case False
    with Cons.prems(1,2) have
      r: "merge_loop add_fields (butlast merged @ [last merged, cur]) rest = Inr out" by simp
    have "settled (butlast merged @ [last merged, cur])"
      by (rule settled_snoc[OF s False])
    with Cons.IH[OF r] show ?thesis by simp
  next
    case True
    with Cons.prems(1,2) obtain c m' where
      c: "chunk_add add_fields (msg_to_chunk (last merged)) (msg_to_chunk cur) = Inr c"
      and m': "chunk_to_msg c = Inr m'"
      and r: "merge_loop add_fields (butlast merged @ [m']) rest = Inr out"
      by (auto split: sum.splits simp del: chunk_to_msg.simps)
    have "settled (butlast merged @ [m'])"
      by (rule settled_replace_last[OF s merged_class[OF c m']])
    with Cons.IH[OF r] show ?thesis by simp
  qed
qed

lemma merge_loop_fixed:
  "settled (merged @ rest) \<Longrightarrow> merged \<noteq> [] \<Longrightarrow>
   merge_loop add_fields merged rest = Inr (merged @ rest)"
proof (induction rest arbitrary: merged)
  case Nil
  then show ?case by simp
next
  case (Cons cur rest)
  from Cons.prems(2) have m: "merged = butlast merged @ [last merged]" by simp
  from Cons.prems(1) m have "settled (butlast merged @ last merged # cur # rest)"
    by (metis append.assoc append_Cons append_Nil)
  then have n: "\<not> isinstance cur (cls (last merged))" by (rule settled_adjacent)
  have ih: "merge_loop add_fields (merged @ [cur]) rest = Inr ((merged @ [cur]) @ rest)"
    using Cons.prems(1) by (intro Cons.IH) simp_all
  have e: "butlast merged @ [last merged, cur] = merged @ [cur]"
    using m by (metis append.assoc append_Cons append_Nil)
  have "merge_loop add_fields merged (cur # rest)
        = merge_loop add_fields (butlast merged @ [last merged, cur]) rest"
    using n Cons.prems(2) by simp
  also have "\<dots> = merge_loop add_fields (merged @ [cur]) rest"
    by (simp only: e)
  also have "\<dots> = Inr (merged @ cur # rest)"
    using ih by simp
  finally show ?case .
qed

text \<open>
  C8: \<^verbatim>\<open>merge_message_runs\<close> is idempotent. However the fields of two chunks are
  combined, when a call returns a list, the call on that list returns the same list: the
  list has no message that is an instance of the class of the message before it, so the
  second call merges nothing and only copies.
\<close>

theorem merge_message_runs_idempotent:
  assumes "merge_message_runs add_fields msgs = Inr out"
  shows "merge_message_runs add_fields out = Inr out"
proof (cases msgs)
  case Nil
  with assms show ?thesis by simp
next
  case (Cons m rest)
  with assms have r: "merge_loop add_fields [m] rest = Inr out" by simp
  from merge_loop_settled[OF r] have s: "settled out" "out \<noteq> []" by simp_all
  then obtain x xs where out: "out = x # xs" by (cases out) auto
  from s(1) out have "settled ([x] @ xs)" by simp
  from merge_loop_fixed[OF this] out show ?thesis by simp
qed

lemma merge_human_human_ai:
  "merge_message_runs concat_str_content
     [message_of (Plain Human) (Str ''a''), message_of (Plain Human) (Str ''b''),
      message_of (Plain AI) (Str ''c'')]
   = Inr [message_of (Plain Human) (Str ''ab''), message_of (Plain AI) (Str ''c'')]"
  by code_simp

theorem merge_message_runs_idempotent_witness:
  "merge_message_runs concat_str_content
     [message_of (Plain Human) (Str ''a''), message_of (Plain Human) (Str ''b''),
      message_of (Plain AI) (Str ''c'')]
   = Inr [message_of (Plain Human) (Str ''ab''), message_of (Plain AI) (Str ''c'')]
   \<and> merge_message_runs concat_str_content
        [message_of (Plain Human) (Str ''ab''), message_of (Plain AI) (Str ''c'')]
      = Inr [message_of (Plain Human) (Str ''ab''), message_of (Plain AI) (Str ''c'')]"
  using merge_message_runs_idempotent[OF merge_human_human_ai] merge_human_human_ai
  by simp

end
